theory Spec2Isabelle
  imports Main "HOL-Library.Sublist"
begin

section \<open>JavaScript values, types and errors\<close>

text \<open>
  The emitter of \<^verbatim>\<open>src/src/index.ts\<close> receives untyped values at run time (the tests
  pass objects where the TypeScript signature asks for a key), so keys, listeners and
  payloads are all values of one type. Objects, symbols and functions carry the identity
  of their allocation. A number key is an integer, as the keys of the specification are;
  the code asks a key for its \<^verbatim>\<open>typeof\<close> and for its equality as a key of \<^verbatim>\<open>Map\<close>
  only.
\<close>

datatype js_value =
    JUndefined
  | JNull
  | JBool bool
  | JNum int
  | JStr string
  | JSym nat
  | JObj nat
  | JFun nat

datatype js_type =
  TUndefined | TObject | TBoolean | TNumber | TString | TSymbol | TFunction

fun typeof :: "js_value \<Rightarrow> js_type" where
  "typeof JUndefined = TUndefined"
| "typeof JNull = TObject"
| "typeof (JBool b) = TBoolean"
| "typeof (JNum n) = TNumber"
| "typeof (JStr s) = TString"
| "typeof (JSym n) = TSymbol"
| "typeof (JObj n) = TObject"
| "typeof (JFun n) = TFunction"

text \<open>
  The four errors the emitter throws, named as the specification names them:
  \<^item> \<open>InvalidKeyType\<close>: \<^verbatim>\<open>TypeError("`eventName` must be a string, symbol, or number")\<close>;
  \<^item> \<open>InvalidListenerType\<close>: \<^verbatim>\<open>TypeError("listener must be a function")\<close>;
  \<^item> \<open>UnknownKey\<close>: \<^verbatim>\<open>Error("this event has not been subscribed")\<close>;
  \<^item> \<open>UnknownListener\<close>: \<^verbatim>\<open>Error("this listener has not been listened")\<close>.

  \<open>StackOverflow\<close> is the \<^verbatim>\<open>RangeError\<close> of a call stack that is used up by listeners
  publishing from inside listeners, \<open>Thrown v\<close> is a value thrown by a listener's own
  code, and \<open>ConsoleError\<close> is the \<^verbatim>\<open>TypeError\<close> that leaves \<^verbatim>\<open>console.dir\<close> when it
  cannot use the options it was given.
\<close>

datatype error =
    InvalidKeyType
  | InvalidListenerType
  | UnknownKey
  | UnknownListener
  | StackOverflow
  | Thrown js_value
  | ConsoleError

type_synonym 'a result = "error + 'a"

definition assertEventName :: "js_value \<Rightarrow> unit result" where
  "assertEventName eventName =
     (if typeof eventName \<noteq> TString \<and> typeof eventName \<noteq> TSymbol \<and> typeof eventName \<noteq> TNumber
      then Inl InvalidKeyType else Inr ())"

definition assertListener :: "js_value \<Rightarrow> unit result" where
  "assertListener listener =
     (if typeof listener \<noteq> TFunction then Inl InvalidListenerType else Inr ())"

text \<open>A valid key: a string, a number or a symbol.\<close>

definition is_event_name :: "js_value \<Rightarrow> bool" where
  "is_event_name k = (typeof k = TString \<or> typeof k = TSymbol \<or> typeof k = TNumber)"

section \<open>The emitter's state\<close>

text \<open>
  \<open>listenerWithLog\<close> returns a new closure at every call. A closure is modelled by what it
  captures (\<open>w_eventName\<close>, \<open>w_listener\<close>) and by the identity of its allocation (\<open>w_id\<close>).
\<close>

record wrapped =
  w_id :: nat
  w_eventName :: js_value
  w_listener :: js_value

text \<open>
  A \<^verbatim>\<open>Set\<close> iterates in insertion order and holds a value once: a list, to which
  \<open>set_add\<close> appends a value that is absent.
\<close>

definition set_add :: "'a list \<Rightarrow> 'a \<Rightarrow> 'a list" where
  "set_add xs x = (if x \<in> set xs then xs else xs @ [x])"

definition set_delete :: "'a list \<Rightarrow> 'a \<Rightarrow> 'a list" where
  "set_delete xs x = removeAll x xs"

text \<open>One argument list of \<open>log\<close>: the event type, the event name and the event data.\<close>

record log_entry =
  entry_type :: string
  entry_name :: js_value
  entry_data :: js_value

text \<open>
  Ghost data: one node for every call \<^verbatim>\<open>listener(payload)\<close> made by a wrapper (line 99),
  with the calls made while that listener ran below it.
\<close>

datatype call = Call wrapped js_value "call list"

fun callee :: "call \<Rightarrow> wrapped" where
  "callee (Call w p cs) = w"

fun argument :: "call \<Rightarrow> js_value" where
  "argument (Call w p cs) = p"

text \<open>
  The \<^verbatim>\<open>Set\<close> objects live in a store (\<open>sets\<close>, from addresses to contents), since the
  token returned by \<open>on\<close> keeps a reference to the set it registered in, also after
  \<open>off\<close> has dropped that set from \<open>eventsMap\<close>. \<open>next_ref\<close> is the next unused identity
  for a set or a closure. \<open>console\<close> is the output of \<open>log\<close>, oldest entry first.
\<close>

record emitter =
  eventsMap :: "js_value \<rightharpoonup> nat"
  listenersMap :: "js_value \<rightharpoonup> wrapped"
  debug :: bool
  sets :: "nat \<Rightarrow> wrapped list"
  next_ref :: nat
  console :: "log_entry list"
  calls :: "call list"

text \<open>
  The constructor. Its argument is \<^verbatim>\<open>options?.debug\<close>: \<open>None\<close> when the options or the
  field are absent.
\<close>

definition new_Emitter :: "bool option \<Rightarrow> emitter" where
  "new_Emitter options_debug =
     \<lparr> eventsMap = Map.empty,
       listenersMap = Map.empty,
       debug = (case options_debug of None \<Rightarrow> True | Some b \<Rightarrow> b),
       sets = (\<lambda>a. []),
       next_ref = 0,
       console = [],
       calls = [] \<rparr>"

definition getSubscribers :: "emitter \<Rightarrow> js_value \<Rightarrow> nat option" where
  "getSubscribers st eventName =
     (if eventsMap st eventName = None then None else eventsMap st eventName)"

text \<open>The registrations of a key, in iteration order; none when the key has no set.\<close>

definition registered :: "emitter \<Rightarrow> js_value \<Rightarrow> wrapped list" where
  "registered st k = (case getSubscribers st k of None \<Rightarrow> [] | Some a \<Rightarrow> sets st a)"

text \<open>
  \<open>log\<close> writes one group to the console whatever \<open>debug\<close> is: the field is never read.
  The entry keeps the arguments of the call, and stands for the header that
  \<^verbatim>\<open>console.groupCollapsed\<close> writes; the clock and the rendering of the name only format
  it. A key that is an object, which only \<open>on\<close> lets through, is rendered by its own
  \<^verbatim>\<open>toString\<close>: code of the caller, which the model leaves out.
\<close>

definition log :: "string \<Rightarrow> js_value \<Rightarrow> js_value \<Rightarrow> emitter \<Rightarrow> emitter" where
  "log eventType eventName eventData st =
     st\<lparr>console := console st @ [\<lparr>entry_type = eventType, entry_name = eventName, entry_data = eventData\<rparr>]\<rparr>"

text \<open>
  The last statement of \<open>log\<close> but one is \<^verbatim>\<open>console.dir("payload: ", eventData ?? "")\<close>:
  the data, parsed if it is JSON text, are handed to \<^verbatim>\<open>console.dir\<close> as its options.
  What becomes of them is the runtime's affair: a browser ignores them, Node copies them
  into the options of its inspector and throws a \<^verbatim>\<open>TypeError\<close> when they make a bad one
  (\<^verbatim>\<open>{colors: false, stylize: 1}\<close>, or the JSON text of it). The runtime is a parameter:
  the data that its \<^verbatim>\<open>console.dir\<close> rejects. Absent data (\<^verbatim>\<open>undefined\<close>, \<^verbatim>\<open>null\<close>) are
  replaced by the empty string, which every runtime accepts; so \<open>log\<close> cannot throw where
  it is called without data, in \<open>on\<close>, in \<open>off\<close> and in the token's \<open>off\<close>, and there the
  model calls \<open>log\<close> alone. Where \<open>log\<close> is called with data, in \<open>emit\<close> and in the
  closures, \<open>console_dir\<close> says whether it throws, after the header is written.

  Data are values without code of their own: turning them into a string (for
  \<^verbatim>\<open>JSON.parse\<close>) and reading their properties run nothing of the caller's.
\<close>

type_synonym runtime = "js_value \<Rightarrow> bool"

definition console_dir :: "runtime \<Rightarrow> js_value \<Rightarrow> unit result" where
  "console_dir D eventData =
     (case eventData of
        JUndefined \<Rightarrow> Inr ()
      | JNull \<Rightarrow> Inr ()
      | _ \<Rightarrow> if D eventData then Inl ConsoleError else Inr ())"

section \<open>Subscribing and unsubscribing\<close>

text \<open>
  What the object returned by \<open>on\<close> captures: the arguments of \<open>on\<close>, the set the
  closure was added to and the closure. Its \<^verbatim>\<open>onReady\<close> returns a resolved promise and
  touches nothing of the emitter; it is left out.
\<close>

record token =
  t_eventName :: js_value
  t_listener :: js_value
  t_subscribers :: nat
  t_newListener :: wrapped

definition hasListener :: "js_value \<Rightarrow> js_value \<Rightarrow> emitter \<Rightarrow> bool result" where
  "hasListener eventName listener st =
     (case assertListener listener of Inl e \<Rightarrow> Inl e | Inr _ \<Rightarrow>
      case assertEventName eventName of Inl e \<Rightarrow> Inl e | Inr _ \<Rightarrow>
      if listenersMap st listener \<noteq> None then Inr True else Inr False)"

definition on :: "js_value \<Rightarrow> js_value \<Rightarrow> emitter \<Rightarrow> token result \<times> emitter" where
  "on eventName listener st =
     (case assertListener listener of Inl e \<Rightarrow> (Inl e, st) | Inr _ \<Rightarrow>
      let (subscribers, st1) =
            (case getSubscribers st eventName of
               Some a \<Rightarrow> (a, st)
             | None \<Rightarrow>
                 (next_ref st,
                  st\<lparr>sets := (sets st)(next_ref st := []),
                     next_ref := Suc (next_ref st),
                     eventsMap := (eventsMap st)(eventName \<mapsto> next_ref st)\<rparr>));
          newListener = \<lparr>w_id = next_ref st1, w_eventName = eventName, w_listener = listener\<rparr>;
          st2 = st1\<lparr>next_ref := Suc (next_ref st1)\<rparr>;
          st3 = st2\<lparr>listenersMap := (listenersMap st2)(listener \<mapsto> newListener)\<rparr>;
          st4 = st3\<lparr>sets := (sets st3)(subscribers := set_add (sets st3 subscribers) newListener)\<rparr>;
          st5 = log ''subscribe'' eventName JUndefined st4
      in (Inr \<lparr>t_eventName = eventName, t_listener = listener,
               t_subscribers = subscribers, t_newListener = newListener\<rparr>, st5))"

text \<open>The \<open>off\<close> of the object returned by \<open>on\<close> (lines 130 to 138).\<close>

definition token_off :: "token \<Rightarrow> emitter \<Rightarrow> bool result \<times> emitter" where
  "token_off tok st =
     (case hasListener (t_eventName tok) (t_listener tok) st of
        Inl e \<Rightarrow> (Inl e, st)
      | Inr True \<Rightarrow>
          let st1 = st\<lparr>sets := (sets st)(t_subscribers tok :=
                          set_delete (sets st (t_subscribers tok)) (t_newListener tok))\<rparr>;
              st2 = st1\<lparr>listenersMap := (listenersMap st1)(t_listener tok := None)\<rparr>;
              st3 = log ''unsubscribe'' (t_eventName tok) JUndefined st2
          in (Inr True, st3)
      | Inr False \<Rightarrow> (Inr False, st))"

definition off :: "js_value \<Rightarrow> js_value \<Rightarrow> emitter \<Rightarrow> bool result \<times> emitter" where
  "off eventName listener st =
     (case assertListener listener of Inl e \<Rightarrow> (Inl e, st) | Inr _ \<Rightarrow>
      case assertEventName eventName of Inl e \<Rightarrow> (Inl e, st) | Inr _ \<Rightarrow>
      if eventsMap st eventName = None then (Inl UnknownKey, st)
      else case listenersMap st listener of
        None \<Rightarrow> (Inl UnknownListener, st)
      | Some wrappedListener \<Rightarrow>
          let st3 =
                (case getSubscribers st eventName of
                   None \<Rightarrow> st
                 | Some listeners \<Rightarrow>
                     let st1 = st\<lparr>listenersMap := (listenersMap st)(listener := None)\<rparr>;
                         st2 = st1\<lparr>sets := (sets st1)(listeners :=
                                  set_delete (sets st1 listeners) wrappedListener)\<rparr>
                     in if length (sets st2 listeners) = 0
                        then st2\<lparr>eventsMap := (eventsMap st2)(eventName := None)\<rparr>
                        else st2)
          in (Inr True, log ''unsubscribe'' eventName JUndefined st3))"

section \<open>Listeners\<close>

text \<open>
  A listener is the caller's code. What it does to the emitter while it runs is a tree:
  it returns a value, throws, or calls a method of the emitter and goes on with the
  outcome of that call (the value returned, or the error it can catch). The listeners
  of a program are an environment, from the function and its payload to its tree. What
  a listener does can so depend on its payload and on every answer of the emitter, not
  on variables of its own.
\<close>

datatype prog =
    Return js_value
  | Throw error
  | CallOn js_value js_value "token result \<Rightarrow> prog"
  | CallOff js_value js_value "bool result \<Rightarrow> prog"
  | CallTokenOff token "bool result \<Rightarrow> prog"
  | CallHasListener js_value js_value "bool result \<Rightarrow> prog"
  | CallEmit js_value js_value "unit result \<Rightarrow> prog"

type_synonym env = "js_value \<Rightarrow> js_value \<Rightarrow> prog"

type_synonym emit_fn = "js_value \<Rightarrow> js_value \<Rightarrow> emitter \<Rightarrow> unit result \<times> emitter"

text \<open>Running a listener's code; \<open>E\<close> is the \<open>emit\<close> it can call.\<close>

primrec run :: "emit_fn \<Rightarrow> prog \<Rightarrow> emitter \<Rightarrow> js_value result \<times> emitter" where
  "run E (Return v) = (\<lambda>st. (Inr v, st))"
| "run E (Throw e) = (\<lambda>st. (Inl e, st))"
| "run E (CallOn k l c) = (\<lambda>st. case on k l st of (r, st') \<Rightarrow> run E (c r) st')"
| "run E (CallOff k l c) = (\<lambda>st. case off k l st of (r, st') \<Rightarrow> run E (c r) st')"
| "run E (CallTokenOff t c) = (\<lambda>st. case token_off t st of (r, st') \<Rightarrow> run E (c r) st')"
| "run E (CallHasListener k l c) = (\<lambda>st. run E (c (hasListener k l st)) st)"
| "run E (CallEmit k p c) = (\<lambda>st. case E k p st of (r, st') \<Rightarrow> run E (c r) st')"

section \<open>Publishing\<close>

text \<open>
  The call \<^verbatim>\<open>listener(payload)\<close> that the closure \<open>w\<close> makes (line 99): the code of the
  listener runs, and the call is noted in \<open>calls\<close>, above the calls made while the
  listener ran.
\<close>

definition call_listener :: "emit_fn \<Rightarrow> env \<Rightarrow> wrapped \<Rightarrow> js_value \<Rightarrow> emitter \<Rightarrow> js_value result \<times> emitter" where
  "call_listener E \<Gamma> w payload st =
     (case run E (\<Gamma> (w_listener w) payload) (st\<lparr>calls := []\<rparr>) of (r, st1) \<Rightarrow>
        (r, st1\<lparr>calls := calls st @ [Call w payload (calls st1)]\<rparr>))"

text \<open>
  Calling the closure that \<open>listenerWithLog\<close> returned: it calls the listener, logs the
  value returned and returns it. An error of the listener leaves the closure before the
  log; an error of \<^verbatim>\<open>console.dir\<close> leaves it after the listener has run.
\<close>

definition listenerWithLog :: "emit_fn \<Rightarrow> runtime \<Rightarrow> env \<Rightarrow> wrapped \<Rightarrow> js_value \<Rightarrow> emitter \<Rightarrow> js_value result \<times> emitter" where
  "listenerWithLog E D \<Gamma> w payload st =
     (case call_listener E \<Gamma> w payload st of
        (Inl e, st1) \<Rightarrow> (Inl e, st1)
      | (Inr res, st1) \<Rightarrow>
          let st2 = log ''call-listener'' (w_eventName w) res st1
          in case console_dir D res of
               Inl e \<Rightarrow> (Inl e, st2)
             | Inr _ \<Rightarrow> (Inr res, st2))"

text \<open>\<^verbatim>\<open>staticListeners.forEach(listener => { listener(payload); })\<close>\<close>

fun forEach :: "emit_fn \<Rightarrow> runtime \<Rightarrow> env \<Rightarrow> wrapped list \<Rightarrow> js_value \<Rightarrow> emitter \<Rightarrow> unit result \<times> emitter" where
  "forEach E D \<Gamma> [] payload st = (Inr (), st)"
| "forEach E D \<Gamma> (listener # rest) payload st =
     (case listenerWithLog E D \<Gamma> listener payload st of
        (Inl e, st') \<Rightarrow> (Inl e, st')
      | (Inr res, st') \<Rightarrow> forEach E D \<Gamma> rest payload st')"

text \<open>The body of \<open>emit\<close>, with the \<open>emit\<close> that its listeners call as a parameter.\<close>

definition emit_body :: "emit_fn \<Rightarrow> runtime \<Rightarrow> env \<Rightarrow> js_value \<Rightarrow> js_value \<Rightarrow> emitter \<Rightarrow> unit result \<times> emitter" where
  "emit_body E D \<Gamma> eventName payload st =
     (case assertEventName eventName of Inl e \<Rightarrow> (Inl e, st) | Inr _ \<Rightarrow>
      let st1 = log ''emit'' eventName payload st
      in case console_dir D payload of Inl e \<Rightarrow> (Inl e, st1) | Inr _ \<Rightarrow>
      let listeners = (case getSubscribers st1 eventName of None \<Rightarrow> [] | Some a \<Rightarrow> sets st1 a);
          staticListeners = listeners
      in forEach E D \<Gamma> staticListeners payload st1)"

text \<open>
  \<open>emit\<close> on a call stack with room for \<open>n\<close> nested calls of \<open>emit\<close>: a listener that
  publishes runs \<open>emit\<close> one level down, and at level 0 the stack is used up.
\<close>

primrec emit :: "nat \<Rightarrow> runtime \<Rightarrow> env \<Rightarrow> js_value \<Rightarrow> js_value \<Rightarrow> emitter \<Rightarrow> unit result \<times> emitter" where
  "emit 0 D \<Gamma> = (\<lambda>eventName payload st. (Inl StackOverflow, st))"
| "emit (Suc n) D \<Gamma> = emit_body (emit n D \<Gamma>) D \<Gamma>"

text \<open>The wrappers and payloads of the listener calls that a publish made itself.\<close>

definition invoked :: "emitter \<Rightarrow> emitter \<Rightarrow> (wrapped \<times> js_value) list" where
  "invoked st st' = map (\<lambda>c. (callee c, argument c)) (drop (length (calls st)) (calls st'))"


section \<open>Well-formed states and example values\<close>

text \<open>
  What the allocation of closures and the \<^verbatim>\<open>Set\<close> type guarantee in every state the
  emitter reaches: a set holds a closure once, and every closure in a set was allocated
  before \<open>next_ref\<close>.
\<close>

definition well_formed :: "emitter \<Rightarrow> bool" where
  "well_formed st =
     (\<forall>a. distinct (sets st a) \<and> (\<forall>w \<in> set (sets st a). w_id w < next_ref st))"

text \<open>
  The states an emitter reaches with listeners \<open>\<Gamma>\<close>: from the constructor, by any
  call of \<open>on\<close>, \<open>off\<close>, a token's \<open>off\<close> or \<open>emit\<close>, whether the call returns or throws,
  on any runtime.
\<close>

inductive reachable :: "env \<Rightarrow> emitter \<Rightarrow> bool" for \<Gamma> :: env where
  reach_new: "reachable \<Gamma> (new_Emitter d)"
| reach_on: "reachable \<Gamma> st \<Longrightarrow> on k l st = (r, st') \<Longrightarrow> reachable \<Gamma> st'"
| reach_off: "reachable \<Gamma> st \<Longrightarrow> off k l st = (r, st') \<Longrightarrow> reachable \<Gamma> st'"
| reach_token_off: "reachable \<Gamma> st \<Longrightarrow> token_off t st = (r, st') \<Longrightarrow> reachable \<Gamma> st'"
| reach_emit: "reachable \<Gamma> st \<Longrightarrow> emit n D \<Gamma> k p st = (r, st') \<Longrightarrow> reachable \<Gamma> st'"

text \<open>
  The values of the examples: two keys, three listeners, a new emitter, that emitter
  after \<^verbatim>\<open>on("a", f0)\<close>, after \<^verbatim>\<open>on("a", f0); on("a", f2)\<close>, after
  \<^verbatim>\<open>on("a", f0); on("a", f0)\<close> and after \<^verbatim>\<open>on("a", f0); on("b", f0)\<close>. The listeners: some
  that only return; some of which \<open>f0\<close> throws; some of which \<open>f0\<close> unsubscribes \<open>f2\<close>
  and subscribes \<open>f4\<close> when it is called; some that each subscribe \<open>f4\<close> under
  \<^verbatim>\<open>"b"\<close> when they are called. The payload \<open>bad_options\<close> is the JSON text of the
  object \<^verbatim>\<open>{colors: false, stylize: 1}\<close>, and \<open>node\<close> is a runtime that rejects it.
\<close>

abbreviation ev_a :: js_value where
  "ev_a \<equiv> JStr ''a''"

abbreviation ev_b :: js_value where
  "ev_b \<equiv> JStr ''b''"

abbreviation f0 :: js_value where
  "f0 \<equiv> JFun 0"

abbreviation f2 :: js_value where
  "f2 \<equiv> JFun 2"


abbreviation e_new :: emitter where
  "e_new \<equiv> new_Emitter None"

abbreviation e_f0 :: emitter where
  "e_f0 \<equiv> snd (on ev_a f0 e_new)"

abbreviation e_f0_f2 :: emitter where
  "e_f0_f2 \<equiv> snd (on ev_a f2 e_f0)"

abbreviation e_f0_f0 :: emitter where
  "e_f0_f0 \<equiv> snd (on ev_a f0 e_f0)"

abbreviation e_a_b :: emitter where
  "e_a_b \<equiv> snd (on ev_b f0 e_f0)"




abbreviation inert :: env where
  "inert \<equiv> (\<lambda>l q. Return JUndefined)"



section \<open>Basic facts\<close>

lemma log_fields [simp]:
  "eventsMap (log t n d st) = eventsMap st"
  "listenersMap (log t n d st) = listenersMap st"
  "sets (log t n d st) = sets st"
  "next_ref (log t n d st) = next_ref st"
  "debug (log t n d st) = debug st"
  "calls (log t n d st) = calls st"
  "console (log t n d st) = console st @ [\<lparr>entry_type = t, entry_name = n, entry_data = d\<rparr>]"
  by (simp_all add: log_def)

lemma assertListener_simps [simp]:
  "typeof l = TFunction \<Longrightarrow> assertListener l = Inr ()"
  "typeof l \<noteq> TFunction \<Longrightarrow> assertListener l = Inl InvalidListenerType"
  by (simp_all add: assertListener_def)

lemma assertEventName_simps [simp]:
  "is_event_name k \<Longrightarrow> assertEventName k = Inr ()"
  "\<not> is_event_name k \<Longrightarrow> assertEventName k = Inl InvalidKeyType"
  by (auto simp add: assertEventName_def is_event_name_def)

lemma getSubscribers_eq [simp]: "getSubscribers st k = eventsMap st k"
  by (simp add: getSubscribers_def)

lemma is_event_name_ev_a [simp]: "is_event_name ev_a"
  by (simp add: is_event_name_def)

subsection \<open>The example states\<close>

lemma e_f0_fields:
  "eventsMap e_f0 ev_a = Some 0"
  "listenersMap e_f0 f0 = Some \<lparr>w_id = 1, w_eventName = ev_a, w_listener = f0\<rparr>"
  "listenersMap e_f0 f2 = None"
  "registered e_f0 ev_a = [\<lparr>w_id = 1, w_eventName = ev_a, w_listener = f0\<rparr>]"
  "fst (on ev_a f0 e_new) =
     Inr \<lparr>t_eventName = ev_a, t_listener = f0, t_subscribers = 0,
          t_newListener = \<lparr>w_id = 1, w_eventName = ev_a, w_listener = f0\<rparr>\<rparr>"
  by (simp_all add: on_def new_Emitter_def Let_def set_add_def registered_def)

lemma e_f0_f2_fields:
  "registered e_f0_f2 ev_a =
     [\<lparr>w_id = 1, w_eventName = ev_a, w_listener = f0\<rparr>,
      \<lparr>w_id = 2, w_eventName = ev_a, w_listener = f2\<rparr>]"
  "fst (on ev_a f2 e_f0) =
     Inr \<lparr>t_eventName = ev_a, t_listener = f2, t_subscribers = 0,
          t_newListener = \<lparr>w_id = 2, w_eventName = ev_a, w_listener = f2\<rparr>\<rparr>"
  by (simp_all add: on_def new_Emitter_def Let_def set_add_def registered_def)


lemma e_a_b_fields:
  "registered e_a_b ev_a = [\<lparr>w_id = 1, w_eventName = ev_a, w_listener = f0\<rparr>]"
  "registered e_a_b ev_b = [\<lparr>w_id = 3, w_eventName = ev_b, w_listener = f0\<rparr>]"
  "listenersMap e_a_b f0 = Some \<lparr>w_id = 3, w_eventName = ev_b, w_listener = f0\<rparr>"
  "eventsMap e_a_b ev_a = Some 0"
  "eventsMap e_a_b ev_b = Some 2"
  by (simp_all add: on_def new_Emitter_def Let_def set_add_def registered_def)

lemma console_dir_simps [simp]:
  "console_dir D JUndefined = Inr ()"
  "console_dir D JNull = Inr ()"
  by (simp_all add: console_dir_def)


subsection \<open>Well-formed states\<close>

lemma well_formed_new_Emitter: "well_formed (new_Emitter d)"
  by (simp add: well_formed_def new_Emitter_def)

lemma well_formed_log [simp]: "well_formed (log t n d st) = well_formed st"
  by (simp add: well_formed_def)

lemma well_formed_calls [simp]: "well_formed (st\<lparr>calls := cs\<rparr>) = well_formed st"
  by (simp add: well_formed_def)

lemma well_formed_fresh:
  assumes "well_formed st" and "next_ref st \<le> w_id w"
  shows "w \<notin> set (sets st a)"
proof
  assume "w \<in> set (sets st a)"
  with assms(1) have "w_id w < next_ref st"
    unfolding well_formed_def by blast
  with assms(2) show False by simp
qed


text \<open>A step that allocates nothing and only deletes from sets keeps a state well-formed.\<close>

lemma well_formed_shrink:
  assumes "well_formed st" and "next_ref st \<le> next_ref st'"
    and "\<And>a. set (sets st' a) \<subseteq> set (sets st a)"
    and "\<And>a. distinct (sets st a) \<Longrightarrow> distinct (sets st' a)"
  shows "well_formed st'"
  unfolding well_formed_def
proof (intro allI conjI ballI)
  fix a
  from assms(1) have d: "distinct (sets st a)"
    unfolding well_formed_def by blast
  from assms(4) [OF d] show "distinct (sets st' a)" .
  fix w
  assume "w \<in> set (sets st' a)"
  with assms(3) [of a] have "w \<in> set (sets st a)" by auto
  with assms(1) have "w_id w < next_ref st"
    unfolding well_formed_def by blast
  with assms(2) show "w_id w < next_ref st'" by simp
qed

lemma off_sets:
  assumes "off k l st = (r, st')"
  shows "next_ref st' = next_ref st"
    and "set (sets st' a) \<subseteq> set (sets st a)"
    and "distinct (sets st a) \<Longrightarrow> distinct (sets st' a)"
proof -
  show "next_ref st' = next_ref st"
    using assms
    by (cases "typeof l = TFunction"; cases "is_event_name k")
       (auto simp add: off_def Let_def split: option.splits if_splits)
  show "set (sets st' a) \<subseteq> set (sets st a)"
    using assms
    by (cases "typeof l = TFunction"; cases "is_event_name k")
       (auto simp add: off_def Let_def set_delete_def split: option.splits if_splits)
  show "distinct (sets st' a)" if "distinct (sets st a)"
    using assms that
    by (cases "typeof l = TFunction"; cases "is_event_name k")
       (auto simp add: off_def Let_def set_delete_def distinct_removeAll
          split: option.splits if_splits)
qed

lemma off_well_formed:
  assumes "well_formed st" and "off k l st = (r, st')"
  shows "well_formed st'"
proof (rule well_formed_shrink [OF assms(1)])
  show "next_ref st \<le> next_ref st'"
    using off_sets(1) [OF assms(2)] by simp
  show "set (sets st' a) \<subseteq> set (sets st a)" for a
    using off_sets(2) [OF assms(2)] .
  show "distinct (sets st' a)" if "distinct (sets st a)" for a
    using off_sets(3) [OF assms(2) that] .
qed

lemma token_off_sets:
  assumes "token_off t st = (r, st')"
  shows "next_ref st' = next_ref st"
    and "set (sets st' a) \<subseteq> set (sets st a)"
    and "distinct (sets st a) \<Longrightarrow> distinct (sets st' a)"
proof -
  show "next_ref st' = next_ref st"
    using assms
    by (auto simp add: token_off_def Let_def split: sum.splits bool.splits)
  show "set (sets st' a) \<subseteq> set (sets st a)"
    using assms
    by (auto simp add: token_off_def Let_def set_delete_def
        split: sum.splits bool.splits if_splits)
  show "distinct (sets st' a)" if "distinct (sets st a)"
    using assms that
    by (auto simp add: token_off_def Let_def set_delete_def distinct_removeAll
        split: sum.splits bool.splits if_splits)
qed

lemma token_off_well_formed:
  assumes "well_formed st" and "token_off t st = (r, st')"
  shows "well_formed st'"
proof (rule well_formed_shrink [OF assms(1)])
  show "next_ref st \<le> next_ref st'"
    using token_off_sets(1) [OF assms(2)] by simp
  show "set (sets st' a) \<subseteq> set (sets st a)" for a
    using token_off_sets(2) [OF assms(2)] .
  show "distinct (sets st' a)" if "distinct (sets st a)" for a
    using token_off_sets(3) [OF assms(2) that] .
qed

lemma set_add_distinct: "distinct xs \<Longrightarrow> distinct (set_add xs x)"
  by (simp add: set_add_def)

lemma set_add_set: "set (set_add xs x) = insert x (set xs)"
  by (auto simp add: set_add_def)

lemma on_well_formed:
  assumes "well_formed st" and "on k l st = (r, st')"
  shows "well_formed st'"
proof (cases "typeof l = TFunction")
  case False
  with assms show ?thesis by (simp add: on_def)
next
  case True
  with assms show ?thesis
    by (auto simp add: on_def Let_def well_formed_def set_add_distinct set_add_set less_Suc_eq
        split: option.splits if_splits)
qed

text \<open>
  Listeners can call every method of the emitter, \<open>emit\<close> included, so the invariant is
  carried through the code of a listener, through one call of a closure, through the
  loop of \<open>emit\<close> and, by induction on the depth of the stack, through \<open>emit\<close>.
\<close>

lemma run_well_formed:
  assumes E: "\<And>k p s r s'. well_formed s \<Longrightarrow> E k p s = (r, s') \<Longrightarrow> well_formed s'"
  shows "well_formed st \<Longrightarrow> run E c st = (r, st') \<Longrightarrow> well_formed st'"
proof (induction c arbitrary: st)
  case (Return v)
  then show ?case by simp
next
  case (Throw e)
  then show ?case by simp
next
  case (CallOn k l c)
  obtain r1 st1 where 1: "on k l st = (r1, st1)"
    by (cases "on k l st")
  with CallOn.prems(2) have "run E (c r1) st1 = (r, st')" by simp
  moreover have "well_formed st1"
    using on_well_formed [OF CallOn.prems(1) 1] .
  ultimately show ?case
    using CallOn.IH [of "c r1" st1] by simp
next
  case (CallOff k l c)
  obtain r1 st1 where 1: "off k l st = (r1, st1)"
    by (cases "off k l st")
  with CallOff.prems(2) have "run E (c r1) st1 = (r, st')" by simp
  moreover have "well_formed st1"
    using off_well_formed [OF CallOff.prems(1) 1] .
  ultimately show ?case
    using CallOff.IH [of "c r1" st1] by simp
next
  case (CallTokenOff t c)
  obtain r1 st1 where 1: "token_off t st = (r1, st1)"
    by (cases "token_off t st")
  with CallTokenOff.prems(2) have "run E (c r1) st1 = (r, st')" by simp
  moreover have "well_formed st1"
    using token_off_well_formed [OF CallTokenOff.prems(1) 1] .
  ultimately show ?case
    using CallTokenOff.IH [of "c r1" st1] by simp
next
  case (CallHasListener k l c)
  from CallHasListener.prems(2) have "run E (c (hasListener k l st)) st = (r, st')"
    by simp
  with CallHasListener.prems(1) show ?case
    using CallHasListener.IH [of "c (hasListener k l st)" st] by simp
next
  case (CallEmit k p c)
  obtain r1 st1 where 1: "E k p st = (r1, st1)"
    by (cases "E k p st")
  with CallEmit.prems(2) have "run E (c r1) st1 = (r, st')" by simp
  moreover have "well_formed st1"
    using E [OF CallEmit.prems(1) 1] .
  ultimately show ?case
    using CallEmit.IH [of "c r1" st1] by simp
qed

lemma call_listener_well_formed:
  assumes E: "\<And>k p s r s'. well_formed s \<Longrightarrow> E k p s = (r, s') \<Longrightarrow> well_formed s'"
    and "well_formed st" and "call_listener E \<Gamma> w p st = (r, st')"
  shows "well_formed st'"
proof -
  obtain r1 st1 where 1: "run E (\<Gamma> (w_listener w) p) (st\<lparr>calls := []\<rparr>) = (r1, st1)"
    by (cases "run E (\<Gamma> (w_listener w) p) (st\<lparr>calls := []\<rparr>)")
  have "well_formed st1"
    using run_well_formed [OF E _ 1] assms(2) by simp
  with assms(3) 1 show ?thesis
    by (auto simp add: call_listener_def)
qed

lemma listenerWithLog_well_formed:
  assumes E: "\<And>k p s r s'. well_formed s \<Longrightarrow> E k p s = (r, s') \<Longrightarrow> well_formed s'"
    and "well_formed st" and "listenerWithLog E D \<Gamma> w p st = (r, st')"
  shows "well_formed st'"
proof -
  obtain r1 st1 where 1: "call_listener E \<Gamma> w p st = (r1, st1)"
    by (cases "call_listener E \<Gamma> w p st")
  have "well_formed st1"
    using call_listener_well_formed [OF E assms(2) 1] .
  with assms(3) 1 show ?thesis
    by (auto simp add: listenerWithLog_def Let_def split: sum.splits)
qed

lemma forEach_well_formed:
  assumes E: "\<And>k p s r s'. well_formed s \<Longrightarrow> E k p s = (r, s') \<Longrightarrow> well_formed s'"
  shows "well_formed st \<Longrightarrow> forEach E D \<Gamma> ws p st = (r, st') \<Longrightarrow> well_formed st'"
proof (induction ws arbitrary: st)
  case Nil
  then show ?case by simp
next
  case (Cons w ws)
  obtain r1 st1 where 1: "listenerWithLog E D \<Gamma> w p st = (r1, st1)"
    by (cases "listenerWithLog E D \<Gamma> w p st")
  have a1: "well_formed st1"
    using listenerWithLog_well_formed [OF E Cons.prems(1) 1] .
  show ?case
  proof (cases r1)
    case (Inl e)
    with Cons.prems(2) 1 a1 show ?thesis by simp
  next
    case (Inr v)
    with Cons.prems(2) 1 have "forEach E D \<Gamma> ws p st1 = (r, st')" by simp
    with Cons.IH a1 show ?thesis by blast
  qed
qed

text \<open>
  \<open>emit\<close> with a valid key: the log entry, then either the error of \<^verbatim>\<open>console.dir\<close> or
  the loop over the set of the key as it is at that moment.
\<close>

lemma emit_unfold:
  assumes "is_event_name k"
  shows "emit (Suc n) D \<Gamma> k p st =
           (case console_dir D p of
              Inl e \<Rightarrow> (Inl e, log ''emit'' k p st)
            | Inr u \<Rightarrow> forEach (emit n D \<Gamma>) D \<Gamma> (registered st k) p (log ''emit'' k p st))"
  using assms
  by (simp add: emit_body_def registered_def Let_def split: option.splits sum.splits)

lemma emit_unfold_accepted:
  assumes "is_event_name k" and "console_dir D p = Inr ()"
  shows "emit (Suc n) D \<Gamma> k p st =
           forEach (emit n D \<Gamma>) D \<Gamma> (registered st k) p (log ''emit'' k p st)"
  unfolding emit_unfold [OF assms(1)] using assms(2) by simp

lemma emit_unfold_rejected:
  assumes "is_event_name k" and "console_dir D p = Inl e"
  shows "emit (Suc n) D \<Gamma> k p st = (Inl e, log ''emit'' k p st)"
  unfolding emit_unfold [OF assms(1)] using assms(2) by simp

lemma emit_well_formed:
  "well_formed st \<Longrightarrow> emit n D \<Gamma> k p st = (r, st') \<Longrightarrow> well_formed st'"
proof (induction n arbitrary: k p st r st')
  case 0
  then show ?case by simp
next
  case (Suc n)
  show ?case
  proof (cases "is_event_name k")
    case False
    with Suc.prems show ?thesis by (simp add: emit_body_def)
  next
    case True
    show ?thesis
    proof (cases "console_dir D p")
      case (Inl e)
      from Suc.prems(2) have "st' = log ''emit'' k p st"
        unfolding emit_unfold_rejected [OF True Inl] by simp
      with Suc.prems(1) show ?thesis by simp
    next
      case (Inr u)
      then have c: "console_dir D p = Inr ()" by simp
      have fe: "forEach (emit n D \<Gamma>) D \<Gamma> (registered st k) p (log ''emit'' k p st) = (r, st')"
        using Suc.prems(2) unfolding emit_unfold_accepted [OF True c] .
      show ?thesis
      proof (rule forEach_well_formed [where E = "emit n D \<Gamma>"])
        show "well_formed (log ''emit'' k p st)"
          using Suc.prems(1) by simp
        show "forEach (emit n D \<Gamma>) D \<Gamma> (registered st k) p (log ''emit'' k p st) = (r, st')"
          by (rule fe)
        show "well_formed s'" if "well_formed s" and "emit n D \<Gamma> k p s = (r, s')"
          for k p s r s'
          using Suc.IH that by blast
      qed
    qed
  qed
qed

text \<open>Every state the emitter reaches is well-formed.\<close>

lemma reachable_well_formed:
  assumes "reachable \<Gamma> st"
  shows "well_formed st"
  using assms
proof (induction rule: reachable.induct)
  case (reach_new d)
  show ?case by (rule well_formed_new_Emitter)
next
  case (reach_on st k l r st')
  then show ?case by (blast intro: on_well_formed)
next
  case (reach_off st k l r st')
  then show ?case by (blast intro: off_well_formed)
next
  case (reach_token_off st t r st')
  then show ?case by (blast intro: token_off_well_formed)
next
  case (reach_emit st n D k p r st')
  then show ?case by (blast intro: emit_well_formed)
qed

subsection \<open>What \<open>on\<close> does in a well-formed state\<close>

lemma on_callable:
  assumes "typeof l = TFunction"
  shows "\<exists>tok st'. on k l st = (Inr tok, st')"
  using assms by (simp add: on_def Let_def split: option.splits)

lemma on_effect:
  assumes "typeof l = TFunction" and "well_formed st" and "on k l st = (Inr tok, st')"
  shows "registered st' k = registered st k @ [t_newListener tok]"
    and "listenersMap st' = (listenersMap st)(l \<mapsto> t_newListener tok)"
    and "w_listener (t_newListener tok) = l"
    and "next_ref st \<le> w_id (t_newListener tok)"
    and "w_id (t_newListener tok) < next_ref st'"
    and "eventsMap st' k \<noteq> None"
    and "t_eventName tok = k" and "t_listener tok = l"
proof -
  have "\<lparr>w_id = next_ref st, w_eventName = k, w_listener = l\<rparr> \<notin> set (sets st a)" for a
    using assms(2) by (simp add: well_formed_fresh)
  with assms(1,3) show "registered st' k = registered st k @ [t_newListener tok]"
    by (auto simp add: on_def Let_def registered_def set_add_def split: option.splits)
  from assms(1,3) show "listenersMap st' = (listenersMap st)(l \<mapsto> t_newListener tok)"
    and "w_listener (t_newListener tok) = l"
    and "next_ref st \<le> w_id (t_newListener tok)"
    and "w_id (t_newListener tok) < next_ref st'"
    and "eventsMap st' k \<noteq> None"
    and "t_eventName tok = k" and "t_listener tok = l"
    by (auto simp add: on_def Let_def split: option.splits)
qed

lemma on_well_formed_snd:
  assumes "well_formed st"
  shows "well_formed (snd (on k l st))"
  using on_well_formed [OF assms surjective_pairing] .

lemma well_formed_examples:
  "well_formed e_new" "well_formed e_f0" "well_formed e_f0_f2" "well_formed e_f0_f0"
  by (intro on_well_formed_snd well_formed_new_Emitter)+

section \<open>The calls that a publish makes\<close>





lemma invoked_log [simp]: "invoked (log t n d st) st' = invoked st st'"
  by (simp add: invoked_def)

lemma invoked_same [simp]: "invoked st (log t n d st) = []"
  by (simp add: invoked_def)








section \<open>Publishing calls the registered listeners\<close>




section \<open>The listeners of a publish are fixed when it starts\<close>




section \<open>Unsubscribing by key and listener\<close>

lemma off_unknown_key:
  assumes "is_event_name k" and "typeof l = TFunction" and "eventsMap st k = None"
  shows "off k l st = (Inl UnknownKey, st)"
  using assms by (simp add: off_def)

lemma off_unknown_listener:
  assumes "is_event_name k" and "typeof l = TFunction"
    and "eventsMap st k \<noteq> None" and "listenersMap st l = None"
  shows "off k l st = (Inl UnknownListener, st)"
  using assms by (simp add: off_def)

lemma off_success:
  assumes "is_event_name k" and "typeof l = TFunction"
    and "eventsMap st k \<noteq> None" and "listenersMap st l = Some w"
  shows "\<exists>st'. off k l st = (Inr True, st') \<and>
           listenersMap st' = (listenersMap st)(l := None) \<and>
           registered st' k = removeAll w (registered st k) \<and>
           (eventsMap st' k = None) = (removeAll w (registered st k) = [])"
  using assms
  by (auto simp add: off_def Let_def registered_def set_delete_def split: option.splits)

lemma off_success_store:
  assumes "is_event_name k" and "typeof l = TFunction"
    and "eventsMap st k = Some a" and "listenersMap st l = Some w"
    and "off k l st = (r, st')"
  shows "sets st' = (sets st)(a := removeAll w (sets st a))"
    and "eventsMap st' =
           (if removeAll w (sets st a) = [] then (eventsMap st)(k := None) else eventsMap st)"
    and "next_ref st' = next_ref st"
  using assms
  by (auto simp add: off_def Let_def set_delete_def)

text \<open>
  C5, as the claim states it, fails: what \<open>off\<close> deletes from the set of the key is the
  closure that \<open>listenersMap\<close> records for the listener, and \<open>listenersMap\<close> has one entry
  for a listener, that of its latest \<open>on\<close>. After \<^verbatim>\<open>on("a", f0); on("b", f0)\<close> the entry
  of \<open>f0\<close> is its closure under \<^verbatim>\<open>"b"\<close>; \<^verbatim>\<open>off("a", f0)\<close> finds the key and the entry,
  returns true and deletes the entry, and the registration of \<open>f0\<close> under \<^verbatim>\<open>"a"\<close> is
  still there (as is the one under \<^verbatim>\<open>"b"\<close>, which \<open>off\<close> can no longer reach).
\<close>

theorem off_other_key_counterexample:
  "is_event_name ev_a \<and> typeof f0 = TFunction \<and>
   eventsMap e_a_b ev_a = Some 0 \<and>
   listenersMap e_a_b f0 = Some \<lparr>w_id = 3, w_eventName = ev_b, w_listener = f0\<rparr> \<and>
   registered e_a_b ev_a = [\<lparr>w_id = 1, w_eventName = ev_a, w_listener = f0\<rparr>] \<and>
   fst (off ev_a f0 e_a_b) = Inr True \<and>
   registered (snd (off ev_a f0 e_a_b)) ev_a =
     [\<lparr>w_id = 1, w_eventName = ev_a, w_listener = f0\<rparr>] \<and>
   registered (snd (off ev_a f0 e_a_b)) ev_b =
     [\<lparr>w_id = 3, w_eventName = ev_b, w_listener = f0\<rparr>] \<and>
   listenersMap (snd (off ev_a f0 e_a_b)) f0 = None \<and>
   fst (off ev_b f0 (snd (off ev_a f0 e_a_b))) = Inl UnknownListener"
  by (simp add: on_def off_def new_Emitter_def Let_def set_add_def set_delete_def
      registered_def is_event_name_def)

text \<open>
  C5, amended. For a valid key and a callable listener, \<open>off\<close> fails with \<open>UnknownKey\<close>
  when the key has no set, fails with \<open>UnknownListener\<close> when the key has a set and the
  listener has no entry in \<open>listenersMap\<close>; both leave the state as it was. Otherwise it
  returns true, having deleted the listener's entry from \<open>listenersMap\<close> and the closure
  \<open>w\<close> recorded in that entry from the set of the key, and the key from \<open>eventsMap\<close>
  exactly when that left its set empty. Every other entry of \<open>listenersMap\<close>, every
  other key and every other set are as before. So the registration of the listener
  under the key is removed when it is the one that \<open>listenersMap\<close> records, and when the
  recorded closure is not in the set of the key, no registration is removed.
\<close>

theorem off_outcomes:
  assumes "is_event_name k" and "typeof l = TFunction"
  shows "(eventsMap st k = None \<longrightarrow> off k l st = (Inl UnknownKey, st)) \<and>
         (eventsMap st k \<noteq> None \<and> listenersMap st l = None \<longrightarrow>
            off k l st = (Inl UnknownListener, st)) \<and>
         (\<forall>a w. eventsMap st k = Some a \<and> listenersMap st l = Some w \<longrightarrow>
            (\<exists>st'. off k l st = (Inr True, st') \<and>
                   listenersMap st' = (listenersMap st)(l := None) \<and>
                   sets st' = (sets st)(a := removeAll w (sets st a)) \<and>
                   eventsMap st' =
                     (if removeAll w (sets st a) = [] then (eventsMap st)(k := None)
                      else eventsMap st) \<and>
                   next_ref st' = next_ref st \<and>
                   registered st' k = removeAll w (registered st k) \<and>
                   w \<notin> set (registered st' k) \<and>
                   (w \<notin> set (registered st k) \<longrightarrow> registered st' k = registered st k)))"
proof (intro conjI allI impI)
  assume "eventsMap st k = None"
  then show "off k l st = (Inl UnknownKey, st)"
    by (rule off_unknown_key [OF assms])
next
  assume "eventsMap st k \<noteq> None \<and> listenersMap st l = None"
  then show "off k l st = (Inl UnknownListener, st)"
    using off_unknown_listener [OF assms] by blast
next
  fix a w
  assume h: "eventsMap st k = Some a \<and> listenersMap st l = Some w"
  then have k: "eventsMap st k \<noteq> None" and a: "eventsMap st k = Some a"
    and w: "listenersMap st l = Some w"
    by simp_all
  from off_success [OF assms k w] obtain st' where
    1: "off k l st = (Inr True, st')"
      "listenersMap st' = (listenersMap st)(l := None)"
      "registered st' k = removeAll w (registered st k)"
    by blast
  note 2 = off_success_store [OF assms a w 1(1)]
  have "w \<notin> set (registered st' k)"
    using 1(3) by simp
  moreover have "registered st' k = registered st k" if "w \<notin> set (registered st k)"
    using 1(3) that by simp
  ultimately show "\<exists>st'. off k l st = (Inr True, st') \<and>
      listenersMap st' = (listenersMap st)(l := None) \<and>
      sets st' = (sets st)(a := removeAll w (sets st a)) \<and>
      eventsMap st' =
        (if removeAll w (sets st a) = [] then (eventsMap st)(k := None) else eventsMap st) \<and>
      next_ref st' = next_ref st \<and>
      registered st' k = removeAll w (registered st k) \<and>
      w \<notin> set (registered st' k) \<and>
      (w \<notin> set (registered st k) \<longrightarrow> registered st' k = registered st k)"
    using 1 2 by blast
qed

theorem off_outcomes_witness:
  "off ev_a f0 e_new = (Inl UnknownKey, e_new) \<and>
   off ev_a f2 e_f0 = (Inl UnknownListener, e_f0) \<and>
   (\<exists>st'. off ev_a f0 e_f0 = (Inr True, st') \<and>
          listenersMap st' f0 = None \<and> registered st' ev_a = [] \<and>
          eventsMap st' ev_a = None) \<and>
   (\<exists>st'. off ev_a f0 e_a_b = (Inr True, st') \<and>
          listenersMap st' f0 = None \<and>
          registered st' ev_a = [\<lparr>w_id = 1, w_eventName = ev_a, w_listener = f0\<rparr>] \<and>
          eventsMap st' ev_a = Some 0 \<and> eventsMap st' ev_b = Some 2 \<and>
          sets st' 2 = [\<lparr>w_id = 3, w_eventName = ev_b, w_listener = f0\<rparr>])"
proof -
  have "eventsMap e_new ev_a = None"
    by (simp add: new_Emitter_def)
  with off_outcomes [OF is_event_name_ev_a, of f0 e_new]
  have 1: "off ev_a f0 e_new = (Inl UnknownKey, e_new)"
    by simp
  from off_outcomes [OF is_event_name_ev_a, of f2 e_f0]
  have 2: "off ev_a f2 e_f0 = (Inl UnknownListener, e_f0)"
    by (simp add: e_f0_fields)
  have s0: "sets e_f0 0 = [\<lparr>w_id = 1, w_eventName = ev_a, w_listener = f0\<rparr>]"
    by (simp add: on_def new_Emitter_def Let_def set_add_def)
  from off_outcomes [OF is_event_name_ev_a, of f0 e_f0]
  have 3: "\<exists>st'. off ev_a f0 e_f0 = (Inr True, st') \<and>
          listenersMap st' f0 = None \<and> registered st' ev_a = [] \<and>
          eventsMap st' ev_a = None"
    by (auto simp add: e_f0_fields s0)
  have s1: "sets e_a_b 0 = [\<lparr>w_id = 1, w_eventName = ev_a, w_listener = f0\<rparr>]"
    "sets e_a_b 2 = [\<lparr>w_id = 3, w_eventName = ev_b, w_listener = f0\<rparr>]"
    by (simp_all add: on_def new_Emitter_def Let_def set_add_def)
  from off_outcomes [OF is_event_name_ev_a, of f0 e_a_b]
  have 4: "\<exists>st'. off ev_a f0 e_a_b = (Inr True, st') \<and>
          listenersMap st' f0 = None \<and>
          registered st' ev_a = [\<lparr>w_id = 1, w_eventName = ev_a, w_listener = f0\<rparr>] \<and>
          eventsMap st' ev_a = Some 0 \<and> eventsMap st' ev_b = Some 2 \<and>
          sets st' 2 = [\<lparr>w_id = 3, w_eventName = ev_b, w_listener = f0\<rparr>]"
    by (auto simp add: e_a_b_fields s1)
  from 1 2 3 4 show ?thesis by blast
qed

text \<open>
  C10. Whenever \<open>off\<close> fails, whatever its arguments, the error is one of the four and
  the whole state, \<open>eventsMap\<close> and \<open>listenersMap\<close> included, is the state before the
  call: every \<^verbatim>\<open>throw\<close> of \<open>off\<close> comes before its first write.
\<close>

theorem off_error_leaves_state:
  "off k l st = (Inl e, st') \<Longrightarrow>
     st' = st \<and> eventsMap st' = eventsMap st \<and> listenersMap st' = listenersMap st \<and>
     e \<in> {InvalidListenerType, InvalidKeyType, UnknownKey, UnknownListener}"
  by (cases "typeof l = TFunction"; cases "is_event_name k")
     (auto simp add: off_def Let_def split: option.splits if_splits)

theorem off_error_leaves_state_witness:
  "off ev_a f2 e_f0 = (Inl UnknownListener, e_f0)"
proof -
  have "\<exists>st'. off ev_a f2 e_f0 = (Inl UnknownListener, st')"
    by (simp add: off_def e_f0_fields)
  then obtain st' where "off ev_a f2 e_f0 = (Inl UnknownListener, st')" ..
  with off_error_leaves_state [OF this] show ?thesis
    by simp
qed

section \<open>Looking a listener up\<close>

text \<open>
  C6. For a valid key and a callable listener, \<open>hasListener\<close> returns true exactly when
  the listener has an entry in \<open>listenersMap\<close>; the key plays no part. So after
  \<open>on k1 l\<close>, \<open>hasListener k2 l\<close> is true for every valid key \<open>k2\<close>.
\<close>

theorem hasListener_ignores_key:
  assumes "is_event_name k" and "is_event_name k1" and "is_event_name k2"
    and "typeof l = TFunction"
  shows "hasListener k l st = Inr (listenersMap st l \<noteq> None) \<and>
         hasListener k2 l (snd (on k1 l st)) = Inr True"
  using assms
  by (auto simp add: hasListener_def on_def Let_def split: option.splits)

theorem hasListener_ignores_key_witness:
  "hasListener ev_a f0 e_new = Inr False \<and> hasListener (JStr ''b'') f0 e_f0 = Inr True"
  using hasListener_ignores_key [of ev_a ev_a "JStr ''b''" f0 e_new]
  by (simp add: is_event_name_def new_Emitter_def)

section \<open>Subscribing: the key is not checked\<close>

text \<open>
  C3. The claim: \<open>on\<close> with a key that is not a string, a number or a symbol fails with
  \<open>InvalidKeyType\<close> and leaves no registration. The code: \<open>on\<close> calls \<open>assertListener\<close>
  only. On a new emitter, \<^verbatim>\<open>on({}, f0)\<close> returns its token and registers \<open>f0\<close> under the
  object; that registration cannot be removed, since the token's \<open>off\<close> and the
  emitter's \<open>off\<close> both check the key and throw.
\<close>

theorem on_accepts_object_key:
  "\<not> is_event_name (JObj 0) \<and>
   fst (on (JObj 0) f0 e_new) =
     Inr \<lparr>t_eventName = JObj 0, t_listener = f0, t_subscribers = 0,
          t_newListener = \<lparr>w_id = 1, w_eventName = JObj 0, w_listener = f0\<rparr>\<rparr> \<and>
   registered (snd (on (JObj 0) f0 e_new)) (JObj 0) =
     [\<lparr>w_id = 1, w_eventName = JObj 0, w_listener = f0\<rparr>] \<and>
   listenersMap (snd (on (JObj 0) f0 e_new)) f0 =
     Some \<lparr>w_id = 1, w_eventName = JObj 0, w_listener = f0\<rparr> \<and>
   fst (token_off
          \<lparr>t_eventName = JObj 0, t_listener = f0, t_subscribers = 0,
           t_newListener = \<lparr>w_id = 1, w_eventName = JObj 0, w_listener = f0\<rparr>\<rparr>
          (snd (on (JObj 0) f0 e_new))) = Inl InvalidKeyType \<and>
   fst (off (JObj 0) f0 (snd (on (JObj 0) f0 e_new))) = Inl InvalidKeyType"
  by (simp add: on_def new_Emitter_def Let_def registered_def set_add_def token_off_def
      hasListener_def off_def is_event_name_def)

section \<open>Unsubscribing through the token leaves an empty set\<close>

text \<open>
  C4. The claim: in every reachable state no key of \<open>eventsMap\<close> has an empty set. The
  code: the \<open>off\<close> of the emitter deletes a key whose set became empty, the \<open>off\<close> of the
  token does not. On a new emitter, \<^verbatim>\<open>on("a", f0)\<close> and then the token's \<open>off\<close> (which
  returns true) reach a state with the key \<^verbatim>\<open>"a"\<close> in \<open>eventsMap\<close> and the empty set; a later
  \<^verbatim>\<open>off("a", f2)\<close> then fails with \<open>UnknownListener\<close>, not with \<open>UnknownKey\<close>.
\<close>

theorem token_off_leaves_empty_set:
  "reachable \<Gamma> (snd (token_off
          \<lparr>t_eventName = ev_a, t_listener = f0, t_subscribers = 0,
           t_newListener = \<lparr>w_id = 1, w_eventName = ev_a, w_listener = f0\<rparr>\<rparr> e_f0)) \<and>
   fst (on ev_a f0 e_new) =
     Inr \<lparr>t_eventName = ev_a, t_listener = f0, t_subscribers = 0,
          t_newListener = \<lparr>w_id = 1, w_eventName = ev_a, w_listener = f0\<rparr>\<rparr> \<and>
   fst (token_off
          \<lparr>t_eventName = ev_a, t_listener = f0, t_subscribers = 0,
           t_newListener = \<lparr>w_id = 1, w_eventName = ev_a, w_listener = f0\<rparr>\<rparr> e_f0) =
     Inr True \<and>
   eventsMap (snd (token_off
          \<lparr>t_eventName = ev_a, t_listener = f0, t_subscribers = 0,
           t_newListener = \<lparr>w_id = 1, w_eventName = ev_a, w_listener = f0\<rparr>\<rparr> e_f0)) ev_a =
     Some 0 \<and>
   sets (snd (token_off
          \<lparr>t_eventName = ev_a, t_listener = f0, t_subscribers = 0,
           t_newListener = \<lparr>w_id = 1, w_eventName = ev_a, w_listener = f0\<rparr>\<rparr> e_f0)) 0 = [] \<and>
   fst (off ev_a f2 (snd (token_off
          \<lparr>t_eventName = ev_a, t_listener = f0, t_subscribers = 0,
           t_newListener = \<lparr>w_id = 1, w_eventName = ev_a, w_listener = f0\<rparr>\<rparr> e_f0))) =
     Inl UnknownListener"
proof -
  have "reachable \<Gamma> e_f0"
    by (rule reach_on [OF reach_new surjective_pairing])
  then have "reachable \<Gamma> (snd (token_off
          \<lparr>t_eventName = ev_a, t_listener = f0, t_subscribers = 0,
           t_newListener = \<lparr>w_id = 1, w_eventName = ev_a, w_listener = f0\<rparr>\<rparr> e_f0))"
    by (rule reach_token_off [OF _ surjective_pairing])
  then show ?thesis
    by (simp add: on_def new_Emitter_def Let_def set_add_def set_delete_def token_off_def
        hasListener_def off_def)
qed

section \<open>The debug option\<close>

text \<open>
  C8. The claim: an emitter constructed with \<^verbatim>\<open>debug: false\<close> logs nothing. The code: the
  constructor stores \<open>debug\<close> and \<open>log\<close> never reads it. On an emitter constructed with
  \<^verbatim>\<open>{debug: false}\<close>, whose console is empty, \<^verbatim>\<open>on("a", f0)\<close> writes the entry
  \<^verbatim>\<open>subscribe\<close> and \<^verbatim>\<open>emit("a", null)\<close> writes the entry \<^verbatim>\<open>emit\<close>, on every runtime.
\<close>

theorem debug_false_still_logs:
  "debug (new_Emitter (Some False)) = False \<and>
   console (new_Emitter (Some False)) = [] \<and>
   console (snd (on ev_a f0 (new_Emitter (Some False)))) =
     [\<lparr>entry_type = ''subscribe'', entry_name = ev_a, entry_data = JUndefined\<rparr>] \<and>
   console (snd (emit (Suc 0) D inert ev_a JNull (new_Emitter (Some False)))) =
     [\<lparr>entry_type = ''emit'', entry_name = ev_a, entry_data = JNull\<rparr>]"
  by (simp add: on_def new_Emitter_def Let_def set_add_def emit_body_def)

section \<open>Removing a registration twice\<close>

lemma well_formed_fresh_registered:
  assumes "well_formed st" and "next_ref st \<le> w_id w"
  shows "w \<notin> set (registered st k)"
  using well_formed_fresh [OF assms]
  by (simp add: registered_def split: option.splits)

text \<open>
  C7, as the claim states it, fails: on a new emitter, after \<^verbatim>\<open>on("a", f0)\<close> the first
  \<^verbatim>\<open>off("a", f0)\<close> returns true and deletes the key, whose set it emptied, so the second
  \<^verbatim>\<open>off("a", f0)\<close> fails with \<open>UnknownKey\<close>, the first check of \<open>off\<close>, and not with
  \<open>UnknownListener\<close>.
\<close>

theorem off_twice_counterexample:
  "is_event_name ev_a \<and> typeof f0 = TFunction \<and> listenersMap e_new f0 = None \<and>
   hasListener ev_a f0 e_f0 = Inr True \<and>
   fst (off ev_a f0 e_f0) = Inr True \<and>
   fst (off ev_a f0 (snd (off ev_a f0 e_f0))) = Inl UnknownKey \<and>
   fst (off ev_a f0 (snd (off ev_a f0 e_f0))) \<noteq> Inl UnknownListener"
  by (simp add: on_def new_Emitter_def Let_def set_add_def set_delete_def
      hasListener_def off_def)

text \<open>
  C7, amended. For a valid key \<open>k\<close> and a callable listener \<open>l\<close>, in a well-formed
  state: after \<open>on k l\<close>, \<open>hasListener k l\<close> is true. The token's \<open>off\<close> then returns true
  and, called again, returns false and changes nothing. The emitter's \<open>off k l\<close> then
  returns true and, called again, fails: with \<open>UnknownKey\<close> when \<open>k\<close> had no other
  registration (the first removal deleted the key), with \<open>UnknownListener\<close> when it had.
\<close>

theorem removal_twice:
  assumes "is_event_name k" and "typeof l = TFunction" and "well_formed st"
    and "on k l st = (Inr t, s1)"
    and "token_off t s1 = (rt, st2)"
    and "off k l s1 = (rd, sd2)"
  shows "hasListener k l s1 = Inr True \<and>
         rt = Inr True \<and> token_off t st2 = (Inr False, st2) \<and>
         rd = Inr True \<and>
         off k l sd2 =
           (Inl (if registered st k = [] then UnknownKey else UnknownListener), sd2)"
proof -
  note on = on_effect [OF assms(2,3,4)]
  have lm: "listenersMap s1 l = Some (t_newListener t)"
    using on(2) by simp
  have has: "hasListener k l s1 = Inr True"
    using assms(1,2) lm by (simp add: hasListener_def)
  have tok: "rt = Inr True \<and> listenersMap st2 l = None"
    using assms(5) has on(7,8)
    by (auto simp add: token_off_def Let_def)
  then have "hasListener (t_eventName t) (t_listener t) st2 = Inr False"
    using assms(1,2) on(7,8) by (simp add: hasListener_def)
  then have tok2: "token_off t st2 = (Inr False, st2)"
    by (simp add: token_off_def)
  from off_success [OF assms(1,2) on(6) lm] assms(6)
  have d: "rd = Inr True" "listenersMap sd2 = (listenersMap s1)(l := None)"
    "registered sd2 k = removeAll (t_newListener t) (registered s1 k)"
    "(eventsMap sd2 k = None) = (removeAll (t_newListener t) (registered s1 k) = [])"
    by auto
  have "t_newListener t \<notin> set (registered st k)"
    using well_formed_fresh_registered [OF assms(3) on(4)] .
  then have "removeAll (t_newListener t) (registered s1 k) = registered st k"
    using on(1) by simp
  with d(4) have key: "(eventsMap sd2 k = None) = (registered st k = [])"
    by simp
  have "off k l sd2 =
      (Inl (if registered st k = [] then UnknownKey else UnknownListener), sd2)"
  proof (cases "registered st k = []")
    case True
    with key off_unknown_key [OF assms(1,2)] show ?thesis by simp
  next
    case False
    with key have "eventsMap sd2 k \<noteq> None" by simp
    moreover have "listenersMap sd2 l = None"
      using d(2) by simp
    ultimately show ?thesis
      using off_unknown_listener [OF assms(1,2)] False by simp
  qed
  with has tok tok2 d(1) show ?thesis by simp
qed

theorem removal_twice_witness:
  "hasListener ev_a f0 e_f0 = Inr True \<and>
   fst (token_off
          \<lparr>t_eventName = ev_a, t_listener = f0, t_subscribers = 0,
           t_newListener = \<lparr>w_id = 1, w_eventName = ev_a, w_listener = f0\<rparr>\<rparr> e_f0) =
     Inr True \<and>
   fst (token_off
          \<lparr>t_eventName = ev_a, t_listener = f0, t_subscribers = 0,
           t_newListener = \<lparr>w_id = 1, w_eventName = ev_a, w_listener = f0\<rparr>\<rparr>
          (snd (token_off
             \<lparr>t_eventName = ev_a, t_listener = f0, t_subscribers = 0,
              t_newListener = \<lparr>w_id = 1, w_eventName = ev_a, w_listener = f0\<rparr>\<rparr> e_f0))) =
     Inr False \<and>
   fst (off ev_a f0 e_f0) = Inr True \<and>
   fst (off ev_a f0 (snd (off ev_a f0 e_f0))) = Inl UnknownKey \<and>
   fst (off ev_a f2 e_f0_f2) = Inr True \<and>
   fst (off ev_a f2 (snd (off ev_a f2 e_f0_f2))) = Inl UnknownListener"
proof -
  have on1: "on ev_a f0 e_new =
      (Inr \<lparr>t_eventName = ev_a, t_listener = f0, t_subscribers = 0,
            t_newListener = \<lparr>w_id = 1, w_eventName = ev_a, w_listener = f0\<rparr>\<rparr>, e_f0)"
    using e_f0_fields(5) by (metis prod.collapse)
  have on2: "on ev_a f2 e_f0 =
      (Inr \<lparr>t_eventName = ev_a, t_listener = f2, t_subscribers = 0,
            t_newListener = \<lparr>w_id = 2, w_eventName = ev_a, w_listener = f2\<rparr>\<rparr>, e_f0_f2)"
    using e_f0_f2_fields(2) by (metis prod.collapse)
  have r0: "registered e_new ev_a = []"
    by (simp add: registered_def new_Emitter_def)
  from removal_twice [OF is_event_name_ev_a _ well_formed_examples(1) on1
      surjective_pairing surjective_pairing] r0
  have 1: "hasListener ev_a f0 e_f0 = Inr True \<and>
   fst (token_off
          \<lparr>t_eventName = ev_a, t_listener = f0, t_subscribers = 0,
           t_newListener = \<lparr>w_id = 1, w_eventName = ev_a, w_listener = f0\<rparr>\<rparr> e_f0) =
     Inr True \<and>
   fst (token_off
          \<lparr>t_eventName = ev_a, t_listener = f0, t_subscribers = 0,
           t_newListener = \<lparr>w_id = 1, w_eventName = ev_a, w_listener = f0\<rparr>\<rparr>
          (snd (token_off
             \<lparr>t_eventName = ev_a, t_listener = f0, t_subscribers = 0,
              t_newListener = \<lparr>w_id = 1, w_eventName = ev_a, w_listener = f0\<rparr>\<rparr> e_f0))) =
     Inr False \<and>
   fst (off ev_a f0 e_f0) = Inr True \<and>
   fst (off ev_a f0 (snd (off ev_a f0 e_f0))) = Inl UnknownKey"
    by simp
  from removal_twice [OF is_event_name_ev_a _ well_formed_examples(2) on2
      surjective_pairing surjective_pairing]
  have 2: "fst (off ev_a f2 e_f0_f2) = Inr True \<and>
   fst (off ev_a f2 (snd (off ev_a f2 e_f0_f2))) = Inl UnknownListener"
    by (simp add: e_f0_fields)
  from 1 2 show ?thesis by blast
qed

section \<open>Subscribing one listener twice\<close>





end
